theory Spec2Isabelle
  imports Complex_Main "HOL-Library.Sublist" "HOL-Library.Log_Nat"
begin

section \<open>Python values used by impostormaker.py\<close>

text \<open>
  The exceptions the modelled code can raise.  A function that can raise returns
  \<open>pyerror + 'a\<close>, with \<open>Inl\<close> for the exception.
\<close>

datatype pyerror = ValueError | ZeroDivisionError | AttributeError | IndexError | TypeError

text \<open>
  Python's \<open>max(list)\<close> and \<open>min(list)\<close>: \<open>ValueError\<close> on an empty list, otherwise
  one pass over the list that keeps the best element seen so far.
\<close>

fun py_max :: "'a::linorder list \<Rightarrow> pyerror + 'a" where
  "py_max [] = Inl ValueError"
| "py_max (x # xs) = Inr (fold max xs x)"

fun py_min :: "'a::linorder list \<Rightarrow> pyerror + 'a" where
  "py_min [] = Inl ValueError"
| "py_min (x # xs) = Inr (fold min xs x)"

subsection \<open>Strings\<close>

text \<open>
  \<open>str.split(sep)\<close> with a one-character separator: every occurrence of the separator
  ends a part, so the result has one part more than there are separators and is never
  empty.  \<open>sep.join(parts)\<close> puts the separator between consecutive parts.
\<close>

fun split :: "char \<Rightarrow> string \<Rightarrow> string list" where
  "split c [] = [[]]"
| "split c (x # xs) =
     (if x = c then [] # split c xs
      else (x # hd (split c xs)) # tl (split c xs))"

fun join :: "string \<Rightarrow> string list \<Rightarrow> string" where
  "join sep [] = []"
| "join sep [p] = p"
| "join sep (p # q # ps) = p @ sep @ join sep (q # ps)"

subsection \<open>Floating point\<close>

text \<open>
  Python's \<open>float\<close> is IEEE 754 binary64.  A finite double is modelled by the rational
  number it denotes, and every floating-point operation is the exact operation followed
  by \<open>fl\<close>, rounding to the nearest number with a 53-bit significand, ties to the even
  significand.  \<open>expo q\<close> is the binary exponent of \<open>q\<close>, that is
  \<open>2 powi expo q \<le> \<bar>q\<bar> < 2 powi (expo q + 1)\<close>.  The exponent range is not bounded here:
  \<open>fl\<close> is the binary64 rounding for results whose magnitude lies in the normal range
  (from \<open>2 powi - 1022\<close> up to \<open>2 powi 1024\<close>) and for zero; infinities and NaN are not
  represented.
\<close>

definition round_half_even :: "rat \<Rightarrow> int" where
  "round_half_even q =
     (let f = \<lfloor>q\<rfloor>; r = q - of_int f
      in if r < 1 / 2 then f
         else if 1 / 2 < r then f + 1
         else if even f then f else f + 1)"

definition expo :: "rat \<Rightarrow> int" where
  "expo q =
     (let (a, b) = quotient_of \<bar>q\<bar>; k = bitlen a - bitlen b
      in if 2 powi k \<le> \<bar>q\<bar> then k else k - 1)"

definition fl :: "rat \<Rightarrow> rat" where
  "fl q = (if q = 0 then 0
           else let e = expo q
                in of_int (round_half_even (q * 2 powi (52 - e))) * 2 powi (e - 52))"

text \<open>
  \<open>a / b\<close> on two ints is the correctly rounded quotient; \<open>x / n\<close> and \<open>x * n\<close> with a
  float \<open>x\<close> and an int \<open>n\<close> first convert \<open>n\<close> to a float.  Division by zero raises
  \<open>ZeroDivisionError\<close> in both cases.  \<open>int(x)\<close> truncates towards zero.
\<close>

definition int_truediv :: "int \<Rightarrow> int \<Rightarrow> pyerror + rat" where
  "int_truediv a b =
     (if b = 0 then Inl ZeroDivisionError else Inr (fl (of_int a / of_int b)))"



definition py_int :: "rat \<Rightarrow> int" where
  "py_int x = (if 0 \<le> x then \<lfloor>x\<rfloor> else \<lceil>x\<rceil>)"

subsection \<open>Images\<close>

text \<open>
  A PIL image in mode RGBA, as far as this program looks at it: its \<open>size\<close> (width,
  height) and the pixel at each coordinate.  \<open>PIL.Image.new("RGBA", size)\<close> rejects a
  negative width or height and otherwise gives an image filled with zeros, which is
  transparent black.  \<open>canvas.paste(im, (x, y))\<close> without a mask overwrites the
  rectangle of the canvas that \<open>im\<close> covers, all four bands, and leaves the size of the
  canvas as it is.
\<close>

type_synonym rgba = "nat \<times> nat \<times> nat \<times> nat"

record image =
  size_px :: "int \<times> int"
  getpixel :: "int \<times> int \<Rightarrow> rgba"



text \<open>
  \<open>Image.crop(box)\<close> and \<open>Image.resize(size, LANCZOS)\<close> belong to the imaging library;
  the program's functions take them as parameters \<open>crop\<close> and \<open>resize\<close>, which may
  raise.
\<close>

type_synonym rect = "int \<times> int \<times> int \<times> int"

type_synonym crop_fn = "image \<Rightarrow> rect \<Rightarrow> pyerror + image"


text \<open>The components \<open>b[0]\<close>, \<open>b[1]\<close>, \<open>b[2]\<close>, \<open>b[3]\<close> of a rectangle.\<close>

fun r0 :: "rect \<Rightarrow> int" where "r0 (a, b, c, d) = a"
fun r1 :: "rect \<Rightarrow> int" where "r1 (a, b, c, d) = b"
fun r2 :: "rect \<Rightarrow> int" where "r2 (a, b, c, d) = c"
fun r3 :: "rect \<Rightarrow> int" where "r3 (a, b, c, d) = d"

section \<open>stringcommon and stringscommon\<close>

text \<open>
  \<open>stringcommon(a, b)\<close>: the loop \<open>for i in range(cnt)\<close> returns the first index at which
  the strings differ; when it runs to the end, \<open>cnt\<close> is returned.
\<close>

fun stringcommon_loop :: "string \<Rightarrow> string \<Rightarrow> nat list \<Rightarrow> nat option" where
  "stringcommon_loop a b [] = None"
| "stringcommon_loop a b (i # is) =
     (if \<not> a ! i = b ! i then Some i else stringcommon_loop a b is)"

definition stringcommon :: "string \<Rightarrow> string \<Rightarrow> nat" where
  "stringcommon a b =
     (let cnt = min (length a) (length b)
      in case stringcommon_loop a b [0..<cnt] of Some i \<Rightarrow> i | None \<Rightarrow> cnt)"

text \<open>
  \<open>stringscommon(lst)\<close> returns \<open>None\<close> for the empty list and otherwise the slice
  \<open>lst[0][0:cnt]\<close>, where \<open>cnt\<close> is the least \<open>stringcommon(lst[0], s)\<close>.
\<close>

definition stringscommon :: "string list \<Rightarrow> pyerror + string option" where
  "stringscommon lst =
     (if length lst = 0 then Inr None
      else case py_min (map (\<lambda>s. stringcommon (lst ! 0) s) lst) of
             Inl e \<Rightarrow> Inl e
           | Inr cnt \<Rightarrow> Inr (Some (take cnt (lst ! 0))))"

section \<open>The Impostor class\<close>

text \<open>
  The parsed command line (\<open>parseargs\<close>), the per-image object of the module
  \<open>impostorfile\<close> as far as this file reads it (\<open>extract_valid\<close> is what its
  \<open>extract()\<close> returns, \<open>croppedbbox\<close> and \<open>croppedimage\<close> are the attributes that
  \<open>extract()\<close> leaves behind), and the fields of \<open>Impostor\<close>.
  \<open>croppedimages\<close> is an attribute that exists only once \<open>uniformcrop\<close> has set it.
\<close>

record args =
  width :: rat
  height :: rat
  rez :: int
  faces :: string
  form :: string
  verbose :: bool
  files :: "string list"

record impostorfile =
  extract_valid :: bool
  croppedbbox :: rect
  croppedimage :: image

record impostor =
  options :: args
  filenames :: "string list"
  framesize :: "rat \<times> rat"
  impostorfiles :: "impostorfile list"
  croprect :: "rect option"
  sizes :: "(int \<times> int) option"
  croppedimages :: "image list option"


subsection \<open>readfiles and processfiles\<close>




subsection \<open>outfilename\<close>

text \<open>
  With \<open>name = None\<close> the common part of the file names is split at \<open>/\<close>, the last part
  gets the prefix \<open>impostor-\<close>, and the parts are joined again.  \<open>stringscommon\<close>
  returns \<open>None\<close> for no file names, and \<open>None.split\<close> raises \<open>AttributeError\<close>.
\<close>

definition outfilename :: "impostor \<Rightarrow> string option \<Rightarrow> pyerror + string" where
  "outfilename st name =
     (case name of
        None \<Rightarrow>
          (case stringscommon (filenames st) of
             Inl e \<Rightarrow> Inl e
           | Inr None \<Rightarrow> Inl AttributeError
           | Inr (Some s) \<Rightarrow>
               (let sparts = split CHR ''/'' s
                in if sparts = [] then Inl IndexError
                   else let sparts = sparts[length sparts - 1 := ''impostor-'' @ last sparts];
                            s = join ''/'' sparts
                        in Inr (s @ ''.png'')))
      | Some n \<Rightarrow> Inr (n @ ''.png''))"

subsection \<open>calcimpostorsize\<close>


subsection \<open>uniformcrop\<close>

text \<open>
  The size check: the loop over \<open>sizes\<close> returns \<open>False\<close> at the first size that is too
  far from the maximum.  The width test comes first and \<open>or\<close> evaluates its second
  operand only when the first is false, so a record that fails the width test ends
  the loop before the height quotient is computed.  The literal \<open>0.05\<close> is the double
  nearest to one twentieth.
\<close>

definition MAXALLOWEDSIZEMISMATCH :: rat where
  "MAXALLOWEDSIZEMISMATCH = fl (5 / 100)"

fun sizecheck :: "int \<Rightarrow> int \<Rightarrow> (int \<times> int) list \<Rightarrow> pyerror + bool" where
  "sizecheck maxwidth maxheight [] = Inr True"
| "sizecheck maxwidth maxheight (s # rest) =
     (case int_truediv (maxwidth - fst s) maxwidth of
        Inl e \<Rightarrow> Inl e
      | Inr wratio \<Rightarrow>
          if MAXALLOWEDSIZEMISMATCH < wratio then Inr False
          else (case int_truediv (maxheight - snd s) maxheight of
                  Inl e \<Rightarrow> Inl e
                | Inr hratio \<Rightarrow>
                    if MAXALLOWEDSIZEMISMATCH < hratio then Inr False
                    else sizecheck maxwidth maxheight rest))"

text \<open>The list comprehension that crops every image; the first failing crop raises.\<close>

fun crop_all :: "crop_fn \<Rightarrow> rect \<Rightarrow> image list \<Rightarrow> pyerror + image list" where
  "crop_all crop cr [] = Inr []"
| "crop_all crop cr (img # imgs) =
     (case crop img cr of
        Inl e \<Rightarrow> Inl e
      | Inr c \<Rightarrow> (case crop_all crop cr imgs of Inl e \<Rightarrow> Inl e | Inr cs \<Rightarrow> Inr (c # cs)))"

text \<open>
  The crop rectangle from the union \<open>wrect\<close> of the bounding boxes and the maximum
  width, lines 133 to 137 of the source.
\<close>

definition croprect_of :: "int \<Rightarrow> rect \<Rightarrow> rect" where
  "croprect_of maxwidth wrect =
     (let xcenter = py_int (fl (of_int maxwidth / 2));
          xleftsize = max 0 (xcenter - r0 wrect);
          xrightsize = min maxwidth (r2 wrect - xcenter);
          xhalfsize = max xleftsize xrightsize
      in (xcenter - xhalfsize, r1 wrect, xcenter + xhalfsize, r3 wrect))"

text \<open>
  \<open>uniformcrop\<close> returns \<open>False\<close> with the object unchanged when the size check fails,
  and otherwise sets \<open>sizes\<close>, \<open>croprect\<close> and \<open>croppedimages\<close> and returns \<open>True\<close>.
  \<open>max\<close> and \<open>min\<close> of an empty list raise \<open>ValueError\<close>.  Showing the cropped images
  on the screen has no effect on the object and is left out.
\<close>

definition uniformcrop :: "crop_fn \<Rightarrow> impostor \<Rightarrow> pyerror + bool \<times> impostor" where
  "uniformcrop crop st =
     (let bboxes = map croppedbbox (impostorfiles st);
          szs = map (\<lambda>impf. size_px (croppedimage impf)) (impostorfiles st)
      in case py_max (map fst szs) of
           Inl e \<Rightarrow> Inl e
         | Inr maxwidth \<Rightarrow>
        (case py_max (map snd szs) of
           Inl e \<Rightarrow> Inl e
         | Inr maxheight \<Rightarrow>
        (case sizecheck maxwidth maxheight szs of
           Inl e \<Rightarrow> Inl e
         | Inr False \<Rightarrow> Inr (False, st)
         | Inr True \<Rightarrow>
        (case py_min (map r0 bboxes) of
           Inl e \<Rightarrow> Inl e
         | Inr w0 \<Rightarrow>
        (case py_min (map r1 bboxes) of
           Inl e \<Rightarrow> Inl e
         | Inr w1 \<Rightarrow>
        (case py_max (map r2 bboxes) of
           Inl e \<Rightarrow> Inl e
         | Inr w2 \<Rightarrow>
        (case py_max (map r3 bboxes) of
           Inl e \<Rightarrow> Inl e
         | Inr w3 \<Rightarrow>
             (let cr = croprect_of maxwidth (w0, w1, w2, w3)
              in case crop_all crop cr (map croppedimage (impostorfiles st)) of
                   Inl e \<Rightarrow> Inl e
                 | Inr imgs \<Rightarrow>
                     Inr (True, st\<lparr>sizes := Some (maxwidth, maxheight),
                                    croprect := Some cr,
                                    croppedimages := Some imgs\<rparr>)))))))))"

subsection \<open>generateimpostor\<close>



section \<open>The main program\<close>



section \<open>The quantities the specification speaks of\<close>

text \<open>
  The maxima of the cropped widths and heights of a batch, the union of its bounding
  boxes, and the crop rectangle as the specification computes it, with
  \<open>xcenter = floor(maxWidth / 2)\<close> in exact integer arithmetic.
\<close>

definition batch_sizes :: "impostor \<Rightarrow> (int \<times> int) list" where
  "batch_sizes st = map (\<lambda>impf. size_px (croppedimage impf)) (impostorfiles st)"

definition batch_maxwidth :: "impostor \<Rightarrow> int" where
  "batch_maxwidth st = Max (set (map fst (batch_sizes st)))"

definition batch_maxheight :: "impostor \<Rightarrow> int" where
  "batch_maxheight st = Max (set (map snd (batch_sizes st)))"

definition union_box :: "impostor \<Rightarrow> rect" where
  "union_box st =
     (let bboxes = map croppedbbox (impostorfiles st)
      in (Min (set (map r0 bboxes)), Min (set (map r1 bboxes)),
          Max (set (map r2 bboxes)), Max (set (map r3 bboxes))))"

definition shared_croprect :: "int \<Rightarrow> rect \<Rightarrow> rect" where
  "shared_croprect maxWidth wrect =
     (let xcenter = maxWidth div 2;
          xleftsize = max 0 (xcenter - r0 wrect);
          xrightsize = min maxWidth (r2 wrect - xcenter);
          xhalfsize = max xleftsize xrightsize
      in (xcenter - xhalfsize, r1 wrect, xcenter + xhalfsize, r3 wrect))"

text \<open>
  \<open>mismatch m x\<close> is the double that the size check computes for \<open>(m - x) / m\<close> when
  \<open>m\<close> is not zero, and \<open>too_different\<close> is the test of the loop on one size.
\<close>

definition mismatch :: "int \<Rightarrow> int \<Rightarrow> rat" where
  "mismatch m x = fl (of_int (m - x) / of_int m)"

definition too_different :: "int \<Rightarrow> int \<Rightarrow> int \<times> int \<Rightarrow> bool" where
  "too_different maxWidth maxHeight s \<longleftrightarrow>
     MAXALLOWEDSIZEMISMATCH < mismatch maxWidth (fst s) \<or>
     MAXALLOWEDSIZEMISMATCH < mismatch maxHeight (snd s)"

text \<open>
  The imaging library keeps the width and the height of an image in C ints, so the
  size of an image that exists lies in this range.
\<close>

definition pil_size :: "int \<times> int \<Rightarrow> bool" where
  "pil_size sz \<longleftrightarrow> 0 \<le> fst sz \<and> fst sz < 2 ^ 31 \<and> 0 \<le> snd sz \<and> snd sz < 2 ^ 31"

definition pil_sizes :: "impostor \<Rightarrow> bool" where
  "pil_sizes st \<longleftrightarrow> list_all pil_size (batch_sizes st)"

section \<open>Instances and example runs\<close>

text \<open>
  A crop and a resize to run the program with.  \<open>crop_box\<close> copies the pixels of the
  box, transparent where the box leaves the image, and rejects a box whose right or
  lower edge comes before its left or upper edge.  \<open>resize_nearest\<close> samples the nearest
  pixel; it stands in for the Lanczos filter, of which only the size of the result
  matters below.
\<close>

definition crop_box :: crop_fn where
  "crop_box im box =
     (if r2 box < r0 box \<or> r3 box < r1 box then Inl ValueError
      else Inr \<lparr>size_px = (r2 box - r0 box, r3 box - r1 box),
                getpixel = (\<lambda>(x, y).
                  if 0 \<le> x + r0 box \<and> x + r0 box < fst (size_px im) \<and>
                     0 \<le> y + r1 box \<and> y + r1 box < snd (size_px im)
                  then getpixel im (x + r0 box, y + r1 box)
                  else (0, 0, 0, 0))\<rparr>)"


definition solid :: "int \<times> int \<Rightarrow> rgba \<Rightarrow> image" where
  "solid sz colour = \<lparr>size_px = sz, getpixel = (\<lambda>_. colour)\<rparr>"

definition extracted :: "rect \<Rightarrow> image \<Rightarrow> impostorfile" where
  "extracted bbox img = \<lparr>extract_valid = True, croppedbbox = bbox, croppedimage = img\<rparr>"

definition batch_of :: "impostorfile list \<Rightarrow> impostor" where
  "batch_of impfs =
     \<lparr>options = \<lparr>width = 6, height = 3, rez = 64, faces = ''8'', form = ''STAR'',
                  verbose = False, files = []\<rparr>,
      filenames = [], framesize = (6, 3), impostorfiles = impfs,
      croprect = None, sizes = None, croppedimages = None\<rparr>"

text \<open>The scenario of the specification: three images with frame canvas 200 by 100.\<close>

definition scenario :: impostor where
  "scenario = batch_of
     [extracted (40, 10, 160, 90) (solid (200, 100) (255, 0, 0, 255)),
      extracted (42, 10, 158, 88) (solid (200, 100) (0, 255, 0, 255)),
      extracted (38, 12, 162, 90) (solid (200, 100) (0, 0, 255, 255))]"

text \<open>
  Further batches: one image of odd width whose content reaches both edges; two images
  whose heights differ by a tenth; two images of height zero, the first half as wide as
  the second; one image of width zero.
\<close>

definition odd_width :: impostor where
  "odd_width = batch_of [extracted (0, 0, 3, 1) (solid (3, 1) (255, 255, 255, 255))]"

definition mismatched :: impostor where
  "mismatched = batch_of
     [extracted (40, 10, 160, 90) (solid (200, 100) (255, 0, 0, 255)),
      extracted (40, 10, 160, 90) (solid (200, 90) (0, 255, 0, 255))]"

definition flat :: impostor where
  "flat = batch_of
     [extracted (0, 0, 50, 0) (solid (50, 0) (255, 0, 0, 255)),
      extracted (0, 0, 100, 0) (solid (100, 0) (0, 255, 0, 255))]"

definition zero_width :: impostor where
  "zero_width = batch_of [extracted (0, 0, 0, 10) (solid (0, 10) (255, 0, 0, 255))]"






text \<open>The naming scenario: two files in the directory \<open>/a\<close>.\<close>

definition shots :: impostor where
  "shots = (batch_of [])\<lparr>filenames := [''/a/shot_01.png'', ''/a/shot_02.png'']\<rparr>"

section \<open>Facts about rounding\<close>

text \<open>
  The exponent brackets its argument, a number with a significand of at most 53 bits
  is its own rounding, and rounding keeps a positive number within its binade.
\<close>

lemma round_half_even_of_int: "round_half_even (of_int z) = z"
  by (simp add: round_half_even_def)

lemma expo_lower:
  assumes "q \<noteq> 0"
  shows "2 powi expo q \<le> \<bar>q\<bar>"
proof -
  obtain a b where ab: "quotient_of \<bar>q\<bar> = (a, b)" by (cases "quotient_of \<bar>q\<bar>")
  have bpos: "0 < b" using ab quotient_of_denom_pos by blast
  have qab: "\<bar>q\<bar> = of_int a / of_int b" using ab quotient_of_div by blast
  have apos: "0 < a"
  proof -
    have "0 < \<bar>q\<bar>" using assms by simp
    then have "0 < (of_int a :: rat) / of_int b" using qab by simp
    then show ?thesis using bpos by (simp add: zero_less_divide_iff)
  qed
  define k where "k = bitlen a - bitlen b"
  have la: "1 \<le> bitlen a" using apos by (simp add: bitlen_alt_def)
  have lb: "1 \<le> bitlen b" using bpos by (simp add: bitlen_alt_def)
  have a_lo: "(2::rat) powi (bitlen a - 1) \<le> of_int a"
  proof -
    have "2 ^ nat (bitlen a - 1) \<le> a" using bitlen_bounds [OF apos] by simp
    then have "(of_int (2 ^ nat (bitlen a - 1)) :: rat) \<le> of_int a" by (simp only: of_int_le_iff)
    then show ?thesis using la by (simp add: power_int_def)
  qed
  have b_hi: "of_int b < (2::rat) powi (bitlen b)"
  proof -
    have "b < 2 ^ nat (bitlen b)" using bitlen_bounds [OF bpos] by simp
    then have "(of_int b :: rat) < of_int (2 ^ nat (bitlen b))" by (simp only: of_int_less_iff)
    then show ?thesis using lb by (simp add: power_int_def)
  qed
  have "(2::rat) powi (k - 1) = 2 powi (bitlen a - 1) / 2 powi (bitlen b)"
    unfolding k_def by (simp add: power_int_diff)
  also have "\<dots> \<le> of_int a / 2 powi (bitlen b)"
    using a_lo by (simp add: divide_right_mono)
  also have "\<dots> \<le> of_int a / of_int b"
    using b_hi apos bpos by (simp add: frac_le)
  finally have low: "(2::rat) powi (k - 1) \<le> \<bar>q\<bar>" using qab by simp
  show ?thesis
    using low ab by (simp add: expo_def k_def Let_def)
qed

lemma fl_exact:
  assumes q: "q = of_int m * 2 powi e" and m: "\<bar>m\<bar> < 2 ^ 53"
  shows "fl q = q"
proof (cases "q = 0")
  case True
  then show ?thesis by (simp add: fl_def)
next
  case False
  define E where "E = expo q"
  have "2 powi E \<le> \<bar>q\<bar>" unfolding E_def using False by (rule expo_lower)
  also have "\<bar>q\<bar> = of_int \<bar>m\<bar> * 2 powi e" unfolding q by (simp add: abs_mult)
  also have "\<dots> < 2 ^ 53 * 2 powi e"
  proof -
    have "(of_int \<bar>m\<bar> :: rat) < of_int (2 ^ 53)" using m by (simp only: of_int_less_iff)
    then show ?thesis by simp
  qed
  also have "\<dots> = 2 powi (53 + e)" by (simp add: power_int_add)
  finally have "(2::rat) powi E < 2 powi (53 + e)" .
  then have "E < 53 + e"
  proof (rule contrapos_pp)
    assume "\<not> E < 53 + e"
    then have "53 + e \<le> E" by simp
    then have "(2::rat) powi (53 + e) \<le> 2 powi E" by (rule power_int_increasing) simp
    then show "\<not> (2::rat) powi E < 2 powi (53 + e)" by simp
  qed
  define n where "n = nat (e + 52 - E)"
  have n: "e + 52 - E = int n" using \<open>E < 53 + e\<close> by (simp add: n_def)
  have "q * 2 powi (52 - E) = of_int m * 2 powi (e + (52 - E))"
    unfolding q by (simp add: power_int_add)
  also have "\<dots> = of_int m * 2 ^ n" using n by (simp add: add_diff_eq)
  also have "\<dots> = of_int (m * 2 ^ n)" by simp
  finally have sc: "q * 2 powi (52 - E) = of_int (m * 2 ^ n)" .
  have "fl q = of_int (m * 2 ^ n) * 2 powi (E - 52)"
    using False by (simp add: fl_def Let_def E_def [symmetric] sc round_half_even_of_int del: of_int_mult of_int_power)
  also have "\<dots> = of_int m * (2 powi (int n) * 2 powi (E - 52))" by simp
  also have "2 powi (int n) * 2 powi (E - 52) = (2::rat) powi (int n + (E - 52))"
    by (simp add: power_int_add)
  also have "int n + (E - 52) = e" using n by simp
  finally show ?thesis using q by simp
qed

lemma xcenter_exact:
  assumes "0 \<le> M" "M < 2 ^ 53"
  shows "py_int (fl (of_int M / 2)) = M div 2"
proof -
  have "fl (of_int M * 2 powi (- 1)) = of_int M * 2 powi (- 1)"
    by (rule fl_exact [OF refl]) (use assms in simp)
  moreover have "(2::rat) powi (- 1) = 1 / 2" by (simp add: power_int_minus)
  ultimately have "fl (of_int M / 2) = of_int M / 2" by simp
  moreover have "\<lfloor>(of_int M :: rat) / 2\<rfloor> = M div 2"
    by (metis floor_divide_of_int_eq of_int_numeral)
  ultimately show ?thesis using assms by (simp only: py_int_def) simp
qed

lemma expo_upper:
  assumes "q \<noteq> 0"
  shows "\<bar>q\<bar> < 2 powi (expo q + 1)"
proof -
  obtain a b where ab: "quotient_of \<bar>q\<bar> = (a, b)" by (cases "quotient_of \<bar>q\<bar>")
  have bpos: "0 < b" using ab quotient_of_denom_pos by blast
  have qab: "\<bar>q\<bar> = of_int a / of_int b" using ab quotient_of_div by blast
  have apos: "0 < a"
  proof -
    have "0 < \<bar>q\<bar>" using assms by simp
    then have "0 < (of_int a :: rat) / of_int b" using qab by simp
    then show ?thesis using bpos by (simp add: zero_less_divide_iff)
  qed
  define k where "k = bitlen a - bitlen b"
  have la: "1 \<le> bitlen a" using apos by (simp add: bitlen_alt_def)
  have lb: "1 \<le> bitlen b" using bpos by (simp add: bitlen_alt_def)
  have a_hi: "of_int a < (2::rat) powi (bitlen a)"
  proof -
    have "a < 2 ^ nat (bitlen a)" using bitlen_bounds [OF apos] by simp
    then have "(of_int a :: rat) < of_int (2 ^ nat (bitlen a))" by (simp only: of_int_less_iff)
    then show ?thesis using la by (simp add: power_int_def)
  qed
  have b_lo: "(2::rat) powi (bitlen b - 1) \<le> of_int b"
  proof -
    have "2 ^ nat (bitlen b - 1) \<le> b" using bitlen_bounds [OF bpos] by simp
    then have "(of_int (2 ^ nat (bitlen b - 1)) :: rat) \<le> of_int b" by (simp only: of_int_le_iff)
    then show ?thesis using lb by (simp add: power_int_def)
  qed
  have pos: "(0::rat) < 2 powi (bitlen b - 1)" by simp
  have "of_int a / of_int b \<le> of_int a / (2::rat) powi (bitlen b - 1)"
    using b_lo apos pos by (simp add: frac_le)
  also have "\<dots> < 2 powi (bitlen a) / (2::rat) powi (bitlen b - 1)"
    using a_hi pos by (simp add: divide_strict_right_mono)
  also have "\<dots> = 2 powi (bitlen a - (bitlen b - 1))"
    by (simp only: power_int_diff [of "2::rat", simplified])
  also have "bitlen a - (bitlen b - 1) = k + 1"
    unfolding k_def by simp
  finally have up: "\<bar>q\<bar> < 2 powi (k + 1)" using qab by simp
  show ?thesis
  proof (cases "2 powi k \<le> \<bar>q\<bar>")
    case True
    then have "expo q = k" using ab by (simp add: expo_def k_def Let_def)
    then show ?thesis using up by simp
  next
    case False
    then have "expo q = k - 1" using ab by (simp add: expo_def k_def Let_def)
    then show ?thesis using False by simp
  qed
qed

lemma powi2_less_cancel:
  assumes "(2::rat) powi a < 2 powi b"
  shows "a < b"
proof (rule ccontr)
  assume "\<not> a < b"
  then have "b \<le> a" by simp
  then have "(2::rat) powi b \<le> 2 powi a" by (rule power_int_increasing) simp
  then show False using assms by simp
qed

lemma expo_unique:
  assumes "2 powi e \<le> \<bar>q\<bar>" and "\<bar>q\<bar> < 2 powi (e + 1)"
  shows "expo q = e"
proof -
  have q0: "q \<noteq> 0"
  proof
    assume "q = 0"
    then have "(2::rat) powi e \<le> 0" using assms(1) by simp
    moreover have "(0::rat) < 2 powi e" by simp
    ultimately show False by simp
  qed
  have "(2::rat) powi (expo q) < 2 powi (e + 1)"
    using expo_lower [OF q0] assms(2) by (rule le_less_trans)
  then have "expo q < e + 1" by (rule powi2_less_cancel)
  moreover have "(2::rat) powi e < 2 powi (expo q + 1)"
    using assms(1) expo_upper [OF q0] by (rule le_less_trans)
  then have "e < expo q + 1" by (rule powi2_less_cancel)
  ultimately show ?thesis by simp
qed

lemma round_half_even_le:
  assumes "q < of_int z + 1 / 2"
  shows "round_half_even q \<le> z"
proof -
  have "\<lfloor>q\<rfloor> \<le> z" using assms by (simp add: floor_le_iff) 
  moreover have "\<lfloor>q\<rfloor> = z \<Longrightarrow> q - of_int \<lfloor>q\<rfloor> < 1 / 2" using assms by simp
  ultimately show ?thesis
    by (cases "\<lfloor>q\<rfloor> = z") (auto simp: round_half_even_def Let_def)
qed

lemma round_half_even_ge:
  assumes "of_int z - 1 / 2 < q"
  shows "z \<le> round_half_even q"
proof -
  have fl1: "z - 1 \<le> \<lfloor>q\<rfloor>" using assms by (simp add: le_floor_iff)
  have "\<lfloor>q\<rfloor> = z - 1 \<Longrightarrow> 1 / 2 < q - of_int \<lfloor>q\<rfloor>" using assms by simp
  then show ?thesis using fl1
    by (cases "\<lfloor>q\<rfloor> = z - 1") (auto simp: round_half_even_def Let_def)
qed

lemma powi2_split: "(2::rat) powi (a + b) = 2 powi a * 2 powi b"
  by (simp add: power_int_add)

lemma powi2_shift52: "(2::rat) ^ 52 * 2 powi (E - 52) = 2 powi E"
  using powi2_split [of 52 "E - 52"] by simp

lemma powi2_shift53: "(2::rat) ^ 53 * 2 powi (E - 52) = 2 powi (E + 1)"
  using powi2_split [of 53 "E - 52"] by (simp add: add.commute)

lemma fl_pos_eq:
  assumes "0 < q"
  shows "fl q = of_int (round_half_even (q * 2 powi (52 - expo q))) * 2 powi (expo q - 52)"
  using assms by (simp add: fl_def Let_def)

lemma fl_lower:
  assumes "0 < q"
  shows "2 powi expo q \<le> fl q"
proof -
  define E where "E = expo q"
  have q0: "q \<noteq> 0" using assms by simp
  have "2 powi E \<le> q" using expo_lower [OF q0] assms by (simp add: E_def)
  then have "2 powi E * 2 powi (52 - E) \<le> q * 2 powi (52 - E)"
    by (simp add: mult_right_mono)
  moreover have "(2::rat) powi E * 2 powi (52 - E) = 2 powi (E + (52 - E))"
    by (simp only: power_int_add [of "2::rat", simplified])
  ultimately have "of_int (2 ^ 52) \<le> q * 2 powi (52 - E)" by simp
  then have "of_int (2 ^ 52) - 1 / 2 < q * 2 powi (52 - E)" by simp
  then have "2 ^ 52 \<le> round_half_even (q * 2 powi (52 - E))" by (rule round_half_even_ge)
  then have "(of_int (2 ^ 52) :: rat) \<le> of_int (round_half_even (q * 2 powi (52 - E)))"
    by (simp only: of_int_le_iff)
  then have "of_int (2 ^ 52) * 2 powi (E - 52) \<le> fl q"
    unfolding fl_pos_eq [OF assms] E_def by (simp only: mult_right_mono zero_less_power_int zero_less_numeral less_imp_le)
  moreover have "(of_int (2 ^ 52) :: rat) * 2 powi (E - 52) = 2 powi E"
    using powi2_shift52 [of E] by simp
  ultimately show ?thesis by (simp only: E_def)
qed

lemma fl_upper:
  assumes "0 < q"
  shows "fl q \<le> 2 powi (expo q + 1)"
proof -
  define E where "E = expo q"
  have q0: "q \<noteq> 0" using assms by simp
  have "q < 2 powi (E + 1)" using expo_upper [OF q0] assms by (simp add: E_def)
  then have "q * 2 powi (52 - E) < 2 powi (E + 1) * 2 powi (52 - E)"
    by (simp add: mult_strict_right_mono)
  moreover have "(2::rat) powi (E + 1) * 2 powi (52 - E) = 2 powi (E + 1 + (52 - E))"
    by (simp only: power_int_add [of "2::rat", simplified])
  ultimately have "q * 2 powi (52 - E) < of_int (2 ^ 53)" by simp
  then have "q * 2 powi (52 - E) < of_int (2 ^ 53) + 1 / 2" by simp
  then have "round_half_even (q * 2 powi (52 - E)) \<le> 2 ^ 53" by (rule round_half_even_le)
  then have "(of_int (round_half_even (q * 2 powi (52 - E))) :: rat) \<le> of_int (2 ^ 53)"
    by (simp only: of_int_le_iff)
  then have "fl q \<le> of_int (2 ^ 53) * 2 powi (E - 52)"
    unfolding fl_pos_eq [OF assms] E_def by (simp only: mult_right_mono zero_less_power_int zero_less_numeral less_imp_le)
  moreover have "(of_int (2 ^ 53) :: rat) * 2 powi (E - 52) = 2 powi (E + 1)"
    using powi2_shift53 [of E] by simp
  ultimately show ?thesis by (simp only: E_def)
qed

lemma tolerance_value: "MAXALLOWEDSIZEMISMATCH = 3602879701896397 / 72057594037927936"
  unfolding MAXALLOWEDSIZEMISMATCH_def by code_simp

lemma fl_expo_m5:
  assumes "0 < q" and "expo q = - 5"
  shows "fl q = of_int (round_half_even (q * 2 ^ 57)) / 2 ^ 57"
proof -
  have "(2::rat) powi (52 - (- 5)) = 2 ^ 57" by simp
  moreover have "(2::rat) powi (- 5 - 52) = 1 / 2 ^ 57" by (simp add: power_int_minus divide_inverse [symmetric])
  ultimately show ?thesis
    unfolding fl_pos_eq [OF assms(1)] assms(2) by (simp only: times_divide_eq_right mult_1_right)
qed

lemma ratio_within:
  assumes d: "0 \<le> d" and M: "0 < M" and le: "20 * d \<le> M"
  shows "fl (of_int d / of_int M) \<le> MAXALLOWEDSIZEMISMATCH"
proof (cases "d = 0")
  case True
  then show ?thesis by (simp add: fl_def tolerance_value)
next
  case False
  define q :: rat where "q = of_int d / of_int M"
  have dpos: "0 < d" using d False by simp
  have qpos: "0 < q" using dpos M by (simp add: q_def)
  have q0: "q \<noteq> 0" using qpos by simp
  have "(of_int (20 * d) :: rat) \<le> of_int M" using le by (simp only: of_int_le_iff)
  then have q20: "q \<le> 1 / 20" using M by (simp add: q_def pos_divide_le_eq)
  have "2 powi expo q \<le> q" using expo_lower [OF q0] qpos by simp
  also have "q < 2 powi (- 4)" using q20 by (simp add: power_int_minus)
  finally have "expo q < - 4" by (rule powi2_less_cancel)
  then consider "expo q = - 5" | "expo q + 1 \<le> - 5" by linarith
  then have "fl q \<le> 3602879701896397 / 72057594037927936"
  proof cases
    case 1
    have "q * 2 ^ 57 \<le> (1 / 20) * 2 ^ 57" using q20 by (simp only: mult_right_mono zero_le_power zero_le_numeral)
    also have "\<dots> < of_int 7205759403792794 + 1 / 2" by simp
    finally have "round_half_even (q * 2 ^ 57) \<le> 7205759403792794" by (rule round_half_even_le)
    then have "(of_int (round_half_even (q * 2 ^ 57)) :: rat) \<le> of_int 7205759403792794"
      by (simp only: of_int_le_iff)
    then have "fl q \<le> of_int 7205759403792794 / 2 ^ 57"
      unfolding fl_expo_m5 [OF qpos 1] by (simp only: divide_right_mono zero_le_power zero_le_numeral)
    then show ?thesis by simp
  next
    case 2
    have "fl q \<le> 2 powi (expo q + 1)" using qpos by (rule fl_upper)
    also have "\<dots> \<le> 2 powi (- 5)" using 2 by (rule power_int_increasing) simp
    also have "\<dots> \<le> 3602879701896397 / 72057594037927936" by (simp add: power_int_minus)
    finally show ?thesis .
  qed
  then show ?thesis by (simp only: tolerance_value q_def)
qed

lemma ratio_exceeds:
  assumes M: "0 < M" and M31: "M < 2 ^ 31" and gt: "M < 20 * d"
  shows "MAXALLOWEDSIZEMISMATCH < fl (of_int d / of_int M)"
proof -
  define q :: rat where "q = of_int d / of_int M"
  have dpos: "0 < d" using M gt by simp
  have qpos: "0 < q" using dpos M by (simp add: q_def)
  have q0: "q \<noteq> 0" using qpos by simp
  have "(of_int M :: rat) < of_int (20 * d)" using gt by (simp only: of_int_less_iff)
  then have q20: "1 / 20 < q" using M by (simp add: q_def pos_less_divide_eq)
  have "(2::rat) powi (- 5) < q" using q20 by (simp add: power_int_minus)
  also have "q < 2 powi (expo q + 1)" using expo_upper [OF q0] qpos by simp
  finally have "- 5 < expo q + 1" by (rule powi2_less_cancel)
  then consider "expo q = - 5" | "- 4 \<le> expo q" by linarith
  then have "3602879701896397 / 72057594037927936 < fl q"
  proof cases
    case 1
    have "14411518807585589 * M < d * 2 ^ 58" using gt M M31 by simp
    then have "(of_int (14411518807585589 * M) :: rat) < of_int (d * 2 ^ 58)"
      by (simp only: of_int_less_iff)
    then have "of_int 7205759403792795 - 1 / 2 < q * 2 ^ 57"
      using M by (simp add: q_def pos_less_divide_eq)
    then have "7205759403792795 \<le> round_half_even (q * 2 ^ 57)" by (rule round_half_even_ge)
    then have "(of_int 7205759403792795 :: rat) \<le> of_int (round_half_even (q * 2 ^ 57))"
      by (simp only: of_int_le_iff)
    then have "of_int 7205759403792795 / 2 ^ 57 \<le> fl q"
      unfolding fl_expo_m5 [OF qpos 1] by (simp only: divide_right_mono zero_le_power zero_le_numeral)
    moreover have "(3602879701896397::rat) / 72057594037927936 < of_int 7205759403792795 / 2 ^ 57"
      by simp
    ultimately show ?thesis by (rule less_le_trans [rotated])
  next
    case 2
    have "(3602879701896397::rat) / 72057594037927936 < 2 powi (- 4)" by (simp add: power_int_minus)
    also have "\<dots> \<le> 2 powi (expo q)" using 2 by (rule power_int_increasing) simp
    also have "\<dots> \<le> fl q" using qpos by (rule fl_lower)
    finally show ?thesis .
  qed
  then show ?thesis by (simp only: tolerance_value q_def)
qed

section \<open>The output file name\<close>

lemma stringcommon_loop_None:
  "stringcommon_loop a b is = None \<longleftrightarrow> (\<forall>i\<in>set is. a ! i = b ! i)"
  by (induction "is") auto

lemma stringcommon_loop_Some:
  "stringcommon_loop a b [k..<cnt] = Some j \<Longrightarrow>
     k \<le> j \<and> j < cnt \<and> a ! j \<noteq> b ! j \<and> (\<forall>i. k \<le> i \<and> i < j \<longrightarrow> a ! i = b ! i)"
proof (induction "cnt - k" arbitrary: k)
  case 0
  then show ?case by simp
next
  case (Suc d)
  then have lt: "k < cnt" by simp
  then have up: "[k..<cnt] = k # [Suc k..<cnt]" by (simp add: upt_conv_Cons)
  show ?case
  proof (cases "a ! k = b ! k")
    case True
    then have "stringcommon_loop a b [Suc k..<cnt] = Some j" using Suc.prems up by simp
    moreover have "d = cnt - Suc k" using Suc.hyps(2) by simp
    ultimately have ih: "Suc k \<le> j \<and> j < cnt \<and> a ! j \<noteq> b ! j \<and>
        (\<forall>i. Suc k \<le> i \<and> i < j \<longrightarrow> a ! i = b ! i)"
      using Suc.hyps(1) by blast
    have "\<forall>i. k \<le> i \<and> i < j \<longrightarrow> a ! i = b ! i"
    proof (intro allI impI)
      fix i assume "k \<le> i \<and> i < j"
      then show "a ! i = b ! i" using ih True by (cases "i = k") auto
    qed
    then show ?thesis using ih by simp
  next
    case False
    then have "j = k" using Suc.prems up by simp
    then show ?thesis using False lt by auto
  qed
qed

lemma stringcommon_props:
  "stringcommon a b \<le> min (length a) (length b) \<and>
   (\<forall>i < stringcommon a b. a ! i = b ! i) \<and>
   (stringcommon a b < min (length a) (length b) \<longrightarrow>
      a ! stringcommon a b \<noteq> b ! stringcommon a b)"
proof (cases "stringcommon_loop a b [0..<min (length a) (length b)]")
  case None
  then have "stringcommon a b = min (length a) (length b)" by (simp add: stringcommon_def)
  moreover have "\<forall>i < min (length a) (length b). a ! i = b ! i"
    using None by (simp add: stringcommon_loop_None)
  ultimately show ?thesis by simp
next
  case (Some j)
  then have "stringcommon a b = j" by (simp add: stringcommon_def)
  then show ?thesis using stringcommon_loop_Some [OF Some] by simp
qed

lemma stringcommon_take: "n \<le> stringcommon a b \<Longrightarrow> take n a = take n b"
  using stringcommon_props [of a b] by (intro nth_take_lemma) auto

lemma stringcommon_prefix_le:
  assumes "prefix p a" and "prefix p b"
  shows "length p \<le> stringcommon a b"
proof (rule ccontr)
  assume "\<not> length p \<le> stringcommon a b"
  then have lt: "stringcommon a b < length p" by simp
  have la: "length p \<le> length a" and lb: "length p \<le> length b"
    using assms by (simp_all add: prefix_length_le)
  have "a ! stringcommon a b = p ! stringcommon a b"
    using assms(1) lt by (auto simp: prefix_def nth_append)
  moreover have "b ! stringcommon a b = p ! stringcommon a b"
    using assms(2) lt by (auto simp: prefix_def nth_append)
  moreover have "a ! stringcommon a b \<noteq> b ! stringcommon a b"
    using stringcommon_props [of a b] lt la lb by simp
  ultimately show False by simp
qed

lemma stringcommon_self: "stringcommon a a = length a"
  using stringcommon_prefix_le [of a a a] stringcommon_props [of a a] by simp

lemma py_min_Min: "xs \<noteq> [] \<Longrightarrow> py_min xs = Inr (Min (set xs))"
  using Min.set_eq_fold [symmetric] by (cases xs) auto

lemma py_max_Max: "xs \<noteq> [] \<Longrightarrow> py_max xs = Inr (Max (set xs))"
  using Max.set_eq_fold [symmetric] by (cases xs) auto

lemma stringscommon_greatest:
  assumes "lst \<noteq> []"
  shows "\<exists>c. stringscommon lst = Inr (Some c) \<and> (\<forall>s\<in>set lst. prefix c s) \<and>
           (\<forall>p. (\<forall>s\<in>set lst. prefix p s) \<longrightarrow> prefix p c)"
proof -
  define a where "a = lst ! 0"
  define cnt where "cnt = Min (set (map (\<lambda>s. stringcommon a s) lst))"
  have a_in: "a \<in> set lst" using assms by (simp add: a_def)
  have sc: "stringscommon lst = Inr (Some (take cnt a))"
    using assms by (simp add: stringscommon_def py_min_Min cnt_def a_def)
  have cnt_le: "cnt \<le> stringcommon a s" if "s \<in> set lst" for s
    unfolding cnt_def using that by (intro Min_le) auto
  have pre: "prefix (take cnt a) s" if "s \<in> set lst" for s
  proof -
    have "take cnt a = take cnt s" using cnt_le [OF that] by (rule stringcommon_take)
    then show ?thesis by (simp add: take_is_prefix)
  qed
  have great: "prefix p (take cnt a)" if p: "\<forall>s\<in>set lst. prefix p s" for p
  proof -
    have pa: "prefix p a" using p a_in by blast
    have "cnt \<in> set (map (\<lambda>s. stringcommon a s) lst)"
      unfolding cnt_def using assms by (intro Min_in) auto
    then obtain s where s: "s \<in> set lst" "cnt = stringcommon a s" by auto
    have "length p \<le> cnt" using stringcommon_prefix_le [OF pa] p s by blast
    then show ?thesis using pa by (auto simp: prefix_def)
  qed
  show ?thesis using sc pre great by blast
qed

lemma split_nonempty: "split c s \<noteq> []"
  by (induction s) auto

lemma join_butlast_last:
  "ps \<noteq> [] \<Longrightarrow> join sep ps = concat (map (\<lambda>p. p @ sep) (butlast ps)) @ last ps"
  by (induction sep ps rule: join.induct) auto

lemma join_split: "join [c] (split c s) = s"
proof (induction s)
  case Nil
  then show ?case by simp
next
  case (Cons x xs)
  obtain p ps where ps: "split c xs = p # ps"
    using split_nonempty [of c xs] by (cases "split c xs") auto
  show ?case using Cons ps by (cases ps) auto
qed

lemma last_split_no_sep: "c \<notin> set (last (split c s))"
proof (induction s)
  case Nil
  then show ?case by simp
next
  case (Cons x xs)
  obtain p ps where ps: "split c xs = p # ps"
    using split_nonempty [of c xs] by (cases "split c xs") auto
  show ?case using Cons ps by (cases ps) (auto simp: split_nonempty)
qed

lemma concat_sep_last:
  "concat (map (\<lambda>p. p @ [c]) qs) = [] \<or> last (concat (map (\<lambda>p. p @ [c]) qs)) = c"
  by (induction qs rule: rev_induct) auto

lemma update_last:
  "ps \<noteq> [] \<Longrightarrow> ps[length ps - 1 := v] = butlast ps @ [v]"
  by (induction ps rule: rev_induct) auto

text \<open>
  Claim C9.  For a non-empty list of file names, \<open>outfilename()\<close> without a name
  returns the longest common leading part \<open>c\<close> of all the names (\<open>c\<close> is a prefix of
  every name, and every common prefix is a prefix of \<open>c\<close>), with \<open>impostor-\<close> put in
  front of its last \<open>/\<close>-separated segment and \<open>.png\<close> appended: \<open>c\<close> is \<open>pre @ suf\<close>,
  where \<open>suf\<close> holds no \<open>/\<close> and \<open>pre\<close> is empty or ends in \<open>/\<close>, and the result is
  \<open>pre @ impostor- @ suf @ .png\<close>.
\<close>

theorem outfilename_default:
  assumes "filenames st \<noteq> []"
  shows "\<exists>c pre suf.
           stringscommon (filenames st) = Inr (Some c) \<and>
           (\<forall>s\<in>set (filenames st). prefix c s) \<and>
           (\<forall>p. (\<forall>s\<in>set (filenames st). prefix p s) \<longrightarrow> prefix p c) \<and>
           c = pre @ suf \<and> CHR ''/'' \<notin> set suf \<and> (pre = [] \<or> last pre = CHR ''/'') \<and>
           outfilename st None = Inr (pre @ ''impostor-'' @ suf @ ''.png'')"
proof -
  obtain c where c: "stringscommon (filenames st) = Inr (Some c)"
      "\<forall>s\<in>set (filenames st). prefix c s"
      "\<forall>p. (\<forall>s\<in>set (filenames st). prefix p s) \<longrightarrow> prefix p c"
    using stringscommon_greatest [OF assms] by blast
  define ps where "ps = split CHR ''/'' c"
  define pre where "pre = concat (map (\<lambda>p. p @ ''/'') (butlast ps))"
  define suf where "suf = last ps"
  have ne: "ps \<noteq> []" by (simp add: ps_def split_nonempty)
  have "join ''/'' ps = c" unfolding ps_def by (rule join_split)
  then have split_c: "c = pre @ suf"
    using join_butlast_last [OF ne, of "''/''"] by (simp add: pre_def suf_def)
  have nosep: "CHR ''/'' \<notin> set suf" unfolding suf_def ps_def by (rule last_split_no_sep)
  have pre_end: "pre = [] \<or> last pre = CHR ''/''"
    unfolding pre_def by (rule concat_sep_last)
  have upd: "ps[length ps - 1 := ''impostor-'' @ last ps] = butlast ps @ [''impostor-'' @ last ps]"
    using ne by (rule update_last)
  have "join ''/'' (ps[length ps - 1 := ''impostor-'' @ last ps]) = pre @ ''impostor-'' @ suf"
    unfolding upd using join_butlast_last [of "butlast ps @ [''impostor-'' @ last ps]" "''/''"]
    by (simp add: pre_def suf_def)
  then have "outfilename st None = Inr (pre @ ''impostor-'' @ suf @ ''.png'')"
    using c(1) ne by (simp add: outfilename_def Let_def ps_def [symmetric])
  then show ?thesis using c split_c nosep pre_end by blast
qed

text \<open>
  For \<open>/a/shot_01.png\<close> and \<open>/a/shot_02.png\<close> the common part is \<open>/a/shot_0\<close> and the
  output name is \<open>/a/impostor-shot_0.png\<close>.
\<close>

lemma shots_value: "outfilename shots None = Inr ''/a/impostor-shot_0.png''"
  by (simp add: shots_def batch_of_def outfilename_def stringscommon_def stringcommon_def Let_def upt_rec [of _ "numeral _"] upt_rec [of _ "Suc _"])

theorem outfilename_default_witness:
  "filenames shots \<noteq> [] \<and> outfilename shots None = Inr ''/a/impostor-shot_0.png''"
  using outfilename_default [of shots] shots_value by (simp add: shots_def)

section \<open>The uniform crop\<close>

lemma sizecheck_nonzero:
  assumes "M \<noteq> 0" and "H \<noteq> 0"
  shows "sizecheck M H szs = Inr (\<not> (\<exists>s\<in>set szs. too_different M H s))"
  using assms by (induction szs) (auto simp: int_truediv_def too_different_def mismatch_def)

lemma sizecheck_zero_width:
  "szs \<noteq> [] \<Longrightarrow> sizecheck 0 H szs = Inl ZeroDivisionError"
  by (cases szs) (simp_all add: int_truediv_def)

lemma sizecheck_zero_height:
  assumes "szs \<noteq> []" and "M \<noteq> 0"
  shows "sizecheck M 0 szs =
           (if MAXALLOWEDSIZEMISMATCH < mismatch M (fst (hd szs)) then Inr False
            else Inl ZeroDivisionError)"
  using assms by (cases szs) (simp_all add: int_truediv_def mismatch_def)


lemma croprect_of_shared:
  assumes "0 \<le> M" and "M < 2 ^ 53"
  shows "croprect_of M wrect = shared_croprect M wrect"
  using xcenter_exact [OF assms] by (simp add: croprect_of_def shared_croprect_def)

lemma batch_sizes_nonempty: "impostorfiles st \<noteq> [] \<Longrightarrow> batch_sizes st \<noteq> []"
  by (simp add: batch_sizes_def)

lemma uniformcrop_nonempty:
  assumes "impostorfiles st \<noteq> []"
  shows "uniformcrop crop st =
     (case sizecheck (batch_maxwidth st) (batch_maxheight st) (batch_sizes st) of
        Inl e \<Rightarrow> Inl e
      | Inr False \<Rightarrow> Inr (False, st)
      | Inr True \<Rightarrow>
          (case crop_all crop (croprect_of (batch_maxwidth st) (union_box st))
                  (map croppedimage (impostorfiles st)) of
             Inl e \<Rightarrow> Inl e
           | Inr imgs \<Rightarrow>
               Inr (True, st\<lparr>sizes := Some (batch_maxwidth st, batch_maxheight st),
                              croprect := Some (croprect_of (batch_maxwidth st) (union_box st)),
                              croppedimages := Some imgs\<rparr>)))"
proof -
  have "py_max (map fst (batch_sizes st)) = Inr (batch_maxwidth st)"
    and "py_max (map snd (batch_sizes st)) = Inr (batch_maxheight st)"
    using assms by (simp_all add: batch_maxwidth_def batch_maxheight_def batch_sizes_def py_max_Max)
  moreover have "py_min (map r0 (map croppedbbox (impostorfiles st))) = Inr (r0 (union_box st))"
    and "py_min (map r1 (map croppedbbox (impostorfiles st))) = Inr (r1 (union_box st))"
    and "py_max (map r2 (map croppedbbox (impostorfiles st))) = Inr (r2 (union_box st))"
    and "py_max (map r3 (map croppedbbox (impostorfiles st))) = Inr (r3 (union_box st))"
    using assms by (simp_all add: union_box_def Let_def py_max_Max py_min_Min image_image)
  moreover have "(r0 (union_box st), r1 (union_box st), r2 (union_box st), r3 (union_box st))
      = union_box st"
    by (simp add: union_box_def Let_def)
  ultimately show ?thesis
    by (simp add: uniformcrop_def Let_def batch_sizes_def [symmetric] split: sum.splits bool.splits)
qed

lemma pil_maxwidth:
  assumes "impostorfiles st \<noteq> []" and "pil_sizes st"
  shows "0 \<le> batch_maxwidth st \<and> batch_maxwidth st < 2 ^ 31"
proof -
  have "batch_maxwidth st \<in> set (map fst (batch_sizes st))"
    unfolding batch_maxwidth_def using assms(1) by (intro Max_in) (auto simp: batch_sizes_def)
  then obtain s where "s \<in> set (batch_sizes st)" "batch_maxwidth st = fst s" by auto
  then show ?thesis using assms(2) by (auto simp: pil_sizes_def list_all_iff pil_size_def)
qed

lemma pil_maxheight:
  assumes "impostorfiles st \<noteq> []" and "pil_sizes st"
  shows "0 \<le> batch_maxheight st \<and> batch_maxheight st < 2 ^ 31"
proof -
  have "batch_maxheight st \<in> set (map snd (batch_sizes st))"
    unfolding batch_maxheight_def using assms(1) by (intro Max_in) (auto simp: batch_sizes_def)
  then obtain s where "s \<in> set (batch_sizes st)" "batch_maxheight st = snd s" by auto
  then show ?thesis using assms(2) by (auto simp: pil_sizes_def list_all_iff pil_size_def)
qed

lemma uniformcrop_True:
  assumes "uniformcrop crop st = Inr (True, st')"
  shows "impostorfiles st \<noteq> [] \<and>
         sizecheck (batch_maxwidth st) (batch_maxheight st) (batch_sizes st) = Inr True \<and>
         sizes st' = Some (batch_maxwidth st, batch_maxheight st) \<and>
         croprect st' = Some (croprect_of (batch_maxwidth st) (union_box st))"
proof -
  have ne: "impostorfiles st \<noteq> []"
  proof
    assume "impostorfiles st = []"
    then have "uniformcrop crop st = Inl ValueError" by (simp add: uniformcrop_def)
    then show False using assms by simp
  qed
  show ?thesis
    using assms ne unfolding uniformcrop_nonempty [OF ne]
    by (auto split: sum.splits bool.splits)
qed

text \<open>
  Claim C1.  For a non-empty batch of images that passes the size check and whose
  images can be cropped, \<open>uniformcrop\<close> returns \<open>True\<close> and sets the crop rectangle to
  \<open>shared_croprect maxWidth wrect\<close>, where \<open>wrect\<close> is the union box (least \<open>x0\<close>, least
  \<open>y0\<close>, greatest \<open>x2\<close>, greatest \<open>y2\<close>), \<open>xcenter = maxWidth div 2\<close>,
  \<open>xleftsize = max 0 (xcenter - x0)\<close>, \<open>xrightsize = min maxWidth (x2 - xcenter)\<close>,
  \<open>xhalfsize\<close> is the larger of the two, and the rectangle is
  \<open>(xcenter - xhalfsize, y0, xcenter + xhalfsize, y2)\<close>.  The program computes
  \<open>xcenter\<close> as \<open>int(maxwidth / 2)\<close> in floating point, which is the integer quotient
  for the widths an image can have.
\<close>

theorem uniformcrop_croprect:
  assumes "impostorfiles st \<noteq> []"
    and "pil_sizes st"
    and "sizecheck (batch_maxwidth st) (batch_maxheight st) (batch_sizes st) = Inr True"
    and "crop_all crop (shared_croprect (batch_maxwidth st) (union_box st))
           (map croppedimage (impostorfiles st)) = Inr imgs"
  shows "uniformcrop crop st =
           Inr (True, st\<lparr>sizes := Some (batch_maxwidth st, batch_maxheight st),
                          croprect := Some (shared_croprect (batch_maxwidth st) (union_box st)),
                          croppedimages := Some imgs\<rparr>)"
proof -
  have "0 \<le> batch_maxwidth st" and "batch_maxwidth st < 2 ^ 53"
    using pil_maxwidth [OF assms(1,2)] by simp_all
  then have "croprect_of (batch_maxwidth st) (union_box st)
      = shared_croprect (batch_maxwidth st) (union_box st)"
    by (rule croprect_of_shared)
  then show ?thesis
    unfolding uniformcrop_nonempty [OF assms(1)] using assms(3,4) by simp
qed

text \<open>
  The scenario of the specification: canvas 200 by 100, union box and crop rectangle
  \<open>(38, 10, 162, 90)\<close>.
\<close>

lemma scenario_sizes: "batch_sizes scenario = [(200, 100), (200, 100), (200, 100)]"
  by (simp add: scenario_def batch_of_def batch_sizes_def extracted_def solid_def)

lemma scenario_max: "batch_maxwidth scenario = 200" "batch_maxheight scenario = 100"
  by (simp_all add: batch_maxwidth_def batch_maxheight_def scenario_sizes)

lemma scenario_union: "union_box scenario = (38, 10, 162, 90)"
  by (simp add: union_box_def scenario_def batch_of_def extracted_def)

lemma scenario_check: "sizecheck 200 100 (batch_sizes scenario) = Inr True"
  by (simp add: scenario_sizes int_truediv_def fl_def tolerance_value)

lemma scenario_rect: "shared_croprect 200 (38, 10, 162, 90) = (38, 10, 162, 90)"
  by (simp add: shared_croprect_def)

lemma scenario_crops:
  "\<exists>imgs. crop_all crop_box (38, 10, 162, 90) (map croppedimage (impostorfiles scenario)) = Inr imgs"
  by (simp add: scenario_def batch_of_def extracted_def crop_box_def)

theorem uniformcrop_croprect_witness:
  "impostorfiles scenario \<noteq> [] \<and> pil_sizes scenario \<and>
   sizecheck (batch_maxwidth scenario) (batch_maxheight scenario) (batch_sizes scenario) = Inr True \<and>
   (\<exists>imgs. uniformcrop crop_box scenario =
      Inr (True, scenario\<lparr>sizes := Some (200, 100), croprect := Some (38, 10, 162, 90),
                            croppedimages := Some imgs\<rparr>))"
proof -
  have h1: "impostorfiles scenario \<noteq> []" by (simp add: scenario_def batch_of_def)
  have h2: "pil_sizes scenario" by (simp add: pil_sizes_def scenario_sizes pil_size_def)
  have h3: "sizecheck (batch_maxwidth scenario) (batch_maxheight scenario) (batch_sizes scenario)
      = Inr True"
    by (simp only: scenario_max scenario_check)
  obtain imgs where h4: "crop_all crop_box
      (shared_croprect (batch_maxwidth scenario) (union_box scenario))
      (map croppedimage (impostorfiles scenario)) = Inr imgs"
    using scenario_crops by (auto simp only: scenario_max scenario_union scenario_rect)
  show ?thesis
    using uniformcrop_croprect [OF h1 h2 h3 h4] h1 h2 h3
    by (auto simp only: scenario_max scenario_union scenario_rect)
qed

text \<open>
  Claim C3.  When \<open>uniformcrop\<close> succeeds on a batch whose bounding boxes end at or
  before the right edge of the canvas, the crop rectangle \<open>(x0, y0, x2, y2)\<close> is
  symmetric about \<open>xcenter = maxWidth div 2\<close>, that is \<open>x0 + x2 = 2 * xcenter\<close>, and
  contains the union of the bounding boxes: \<open>x0\<close> is at most the least left edge, \<open>x2\<close>
  at least the greatest right edge, and \<open>y0\<close> and \<open>y2\<close> are exactly the least upper and
  the greatest lower edge.
\<close>

theorem uniformcrop_symmetric_contains:
  assumes "uniformcrop crop st = Inr (True, st')"
    and "pil_sizes st"
    and "\<forall>impf\<in>set (impostorfiles st). r2 (croppedbbox impf) \<le> batch_maxwidth st"
  shows "\<exists>x0 y0 x2 y2.
           croprect st' = Some (x0, y0, x2, y2) \<and>
           x0 + x2 = 2 * (batch_maxwidth st div 2) \<and>
           x0 \<le> r0 (union_box st) \<and> y0 = r1 (union_box st) \<and>
           r2 (union_box st) \<le> x2 \<and> y2 = r3 (union_box st) \<and>
           (\<forall>impf\<in>set (impostorfiles st).
              x0 \<le> r0 (croppedbbox impf) \<and> y0 \<le> r1 (croppedbbox impf) \<and>
              r2 (croppedbbox impf) \<le> x2 \<and> r3 (croppedbbox impf) \<le> y2)"
proof -
  define M where "M = batch_maxwidth st"
  obtain w0 w1 w2 w3 where w: "union_box st = (w0, w1, w2, w3)" by (cases "union_box st")
  have ne: "impostorfiles st \<noteq> []"
    and cr: "croprect st' = Some (croprect_of M (union_box st))"
    using uniformcrop_True [OF assms(1)] by (simp_all add: M_def)
  have M: "0 \<le> M" "M < 2 ^ 53" using pil_maxwidth [OF ne assms(2)] by (simp_all add: M_def)
  have cr': "croprect st' = Some (shared_croprect M (w0, w1, w2, w3))"
    using cr croprect_of_shared [OF M] w by simp
  have fin: "finite (set (impostorfiles st))" by simp
  have w2M: "w2 \<le> M"
  proof -
    have "w2 = Max ((\<lambda>impf. r2 (croppedbbox impf)) ` set (impostorfiles st))"
      using w by (auto simp: union_box_def Let_def image_image)
    then show ?thesis using assms(3) ne by (simp add: M_def)
  qed
  have each: "w0 \<le> r0 (croppedbbox impf) \<and> w1 \<le> r1 (croppedbbox impf) \<and>
      r2 (croppedbbox impf) \<le> w2 \<and> r3 (croppedbbox impf) \<le> w3"
    if "impf \<in> set (impostorfiles st)" for impf
    using w that by (auto simp: union_box_def Let_def image_image)
  define xc where "xc = M div 2"
  define xh where "xh = max (max 0 (xc - w0)) (min M (w2 - xc))"
  have sh: "shared_croprect M (w0, w1, w2, w3) = (xc - xh, w1, xc + xh, w3)"
    by (simp add: shared_croprect_def Let_def xc_def xh_def)
  have xc0: "0 \<le> xc" using M by (simp add: xc_def)
  have left: "xc - xh \<le> w0" unfolding xh_def by simp
  have right: "w2 \<le> xc + xh" unfolding xh_def using w2M xc0 by (simp add: min_def max_def)
  show ?thesis
    using cr' sh left right each w by (fastforce simp: xc_def M_def)
qed

lemma scenario_run:
  "\<exists>imgs. uniformcrop crop_box scenario =
     Inr (True, scenario\<lparr>sizes := Some (200, 100), croprect := Some (38, 10, 162, 90),
                           croppedimages := Some imgs\<rparr>)"
proof -
  have ne: "impostorfiles scenario \<noteq> []" by (simp add: scenario_def batch_of_def)
  have "croprect_of 200 (38, 10, 162, 90) = (38, 10, 162, 90)"
    by (simp add: croprect_of_shared scenario_rect)
  then show ?thesis
    unfolding uniformcrop_nonempty [OF ne] scenario_max scenario_union
    using scenario_crops by (auto simp: scenario_check)
qed

theorem uniformcrop_symmetric_contains_witness:
  "\<exists>st'. uniformcrop crop_box scenario = Inr (True, st') \<and> pil_sizes scenario \<and>
     map (\<lambda>impf. r2 (croppedbbox impf)) (impostorfiles scenario) = [160, 158, 162] \<and>
     batch_maxwidth scenario = 200 \<and>
     croprect st' = Some (38, 10, 162, 90) \<and>
     (38::int) + 162 = 2 * (batch_maxwidth scenario div 2)"
proof -
  obtain st' where run: "uniformcrop crop_box scenario = Inr (True, st')"
    and cr: "croprect st' = Some (38, 10, 162, 90)"
    using scenario_run by auto
  have h2: "pil_sizes scenario" by (simp add: pil_sizes_def scenario_sizes pil_size_def)
  have h3: "\<forall>impf\<in>set (impostorfiles scenario). r2 (croppedbbox impf) \<le> batch_maxwidth scenario"
    by (simp add: scenario_max) (simp add: scenario_def batch_of_def extracted_def)
  have boxes: "map (\<lambda>impf. r2 (croppedbbox impf)) (impostorfiles scenario) = [160, 158, 162]"
    by (simp add: scenario_def batch_of_def extracted_def)
  from uniformcrop_symmetric_contains [OF run h2 h3] cr
  have "(38::int) + 162 = 2 * (batch_maxwidth scenario div 2)" by auto
  then show ?thesis using run h2 boxes cr scenario_max(1) by auto
qed

text \<open>
  Claim C4, as amended.  When \<open>uniformcrop\<close> succeeds on a batch whose bounding boxes
  lie between \<open>0\<close> and \<open>maxWidth\<close> horizontally, the crop rectangle ends at or before
  \<open>maxWidth\<close> and starts at \<open>- 1\<close> or later; it starts at \<open>0\<close> or later when
  \<open>maxWidth\<close> is even.
\<close>

theorem uniformcrop_horizontal_extent:
  assumes "uniformcrop crop st = Inr (True, st')"
    and "pil_sizes st"
    and "\<forall>impf\<in>set (impostorfiles st).
           0 \<le> r0 (croppedbbox impf) \<and> r2 (croppedbbox impf) \<le> batch_maxwidth st"
  shows "\<exists>x0 y0 x2 y2.
           croprect st' = Some (x0, y0, x2, y2) \<and> x2 \<le> batch_maxwidth st \<and>
           - 1 \<le> x0 \<and> (even (batch_maxwidth st) \<longrightarrow> 0 \<le> x0)"
proof -
  define M where "M = batch_maxwidth st"
  obtain w0 w1 w2 w3 where w: "union_box st = (w0, w1, w2, w3)" by (cases "union_box st")
  have ne: "impostorfiles st \<noteq> []"
    and cr: "croprect st' = Some (croprect_of M (union_box st))"
    using uniformcrop_True [OF assms(1)] by (simp_all add: M_def)
  have M: "0 \<le> M" "M < 2 ^ 53" using pil_maxwidth [OF ne assms(2)] by (simp_all add: M_def)
  have cr': "croprect st' = Some (shared_croprect M (w0, w1, w2, w3))"
    using cr croprect_of_shared [OF M] w by simp
  have w2M: "w2 \<le> M"
  proof -
    have "w2 = Max ((\<lambda>impf. r2 (croppedbbox impf)) ` set (impostorfiles st))"
      using w by (auto simp: union_box_def Let_def image_image)
    then show ?thesis using assms(3) ne by (simp add: M_def)
  qed
  have w00: "0 \<le> w0"
  proof -
    have "w0 = Min ((\<lambda>impf. r0 (croppedbbox impf)) ` set (impostorfiles st))"
      using w by (auto simp: union_box_def Let_def image_image)
    then show ?thesis using assms(3) ne by simp
  qed
  define xc where "xc = M div 2"
  define xh where "xh = max (max 0 (xc - w0)) (min M (w2 - xc))"
  have sh: "shared_croprect M (w0, w1, w2, w3) = (xc - xh, w1, xc + xh, w3)"
    by (simp add: shared_croprect_def Let_def xc_def xh_def)
  have xc0: "0 \<le> xc" "2 * xc \<le> M" "M \<le> 2 * xc + 1" "even M \<longrightarrow> 2 * xc = M"
    using M by (auto simp: xc_def)
  have xh_le: "xh \<le> M - xc" unfolding xh_def using w2M w00 xc0 by (simp add: min_def max_def)
  have "xc + xh \<le> M" using xh_le by simp
  moreover have "- 1 \<le> xc - xh" using xh_le xc0 by simp
  moreover have "even M \<longrightarrow> 0 \<le> xc - xh" using xh_le xc0 by auto
  ultimately show ?thesis using cr' sh by (simp add: M_def)
qed

lemma odd_width_sizes: "batch_sizes odd_width = [(3, 1)]"
  by (simp add: odd_width_def batch_of_def batch_sizes_def extracted_def solid_def)

lemma odd_width_max: "batch_maxwidth odd_width = 3" "batch_maxheight odd_width = 1"
  by (simp_all add: batch_maxwidth_def batch_maxheight_def odd_width_sizes)

lemma odd_width_union: "union_box odd_width = (0, 0, 3, 1)"
  by (simp add: union_box_def odd_width_def batch_of_def extracted_def)

lemma odd_width_run:
  "\<exists>imgs. uniformcrop crop_box odd_width =
     Inr (True, odd_width\<lparr>sizes := Some (3, 1), croprect := Some (- 1, 0, 3, 1),
                            croppedimages := Some imgs\<rparr>)"
proof -
  have ne: "impostorfiles odd_width \<noteq> []" by (simp add: odd_width_def batch_of_def)
  have "croprect_of 3 (0, 0, 3, 1) = (- 1, 0, 3, 1)"
    by (simp add: croprect_of_shared shared_croprect_def)
  moreover have "sizecheck 3 1 (batch_sizes odd_width) = Inr True"
    by (simp add: odd_width_sizes int_truediv_def fl_def tolerance_value)
  moreover have "\<exists>imgs. crop_all crop_box (- 1, 0, 3, 1)
      (map croppedimage (impostorfiles odd_width)) = Inr imgs"
    by (simp add: odd_width_def batch_of_def extracted_def crop_box_def)
  ultimately show ?thesis
    unfolding uniformcrop_nonempty [OF ne] odd_width_max odd_width_union by auto
qed

text \<open>
  Claim C4 as stated fails for an odd width: for one image of size 3 by 1 whose
  bounding box is the whole image, \<open>xcenter\<close> is 1 and the half size is 2, so the
  crop rectangle starts at \<open>- 1\<close>.
\<close>

theorem uniformcrop_left_of_canvas:
  "map croppedbbox (impostorfiles odd_width) = [(0, 0, 3, 1)] \<and>
   batch_sizes odd_width = [(3, 1)] \<and>
   \<not> isl (uniformcrop crop_box odd_width) \<and>
   fst (projr (uniformcrop crop_box odd_width)) \<and>
   croprect (snd (projr (uniformcrop crop_box odd_width))) = Some (- 1, 0, 3, 1)"
  using odd_width_run
  by (auto simp: odd_width_sizes) (simp add: odd_width_def batch_of_def extracted_def)

theorem uniformcrop_horizontal_extent_witness:
  "\<exists>st'. uniformcrop crop_box odd_width = Inr (True, st') \<and> pil_sizes odd_width \<and>
     map croppedbbox (impostorfiles odd_width) = [(0, 0, 3, 1)] \<and>
     batch_maxwidth odd_width = 3 \<and>
     croprect st' = Some (- 1, 0, 3, 1) \<and> (3::int) \<le> batch_maxwidth odd_width"
proof -
  obtain st' where run: "uniformcrop crop_box odd_width = Inr (True, st')"
    and cr: "croprect st' = Some (- 1, 0, 3, 1)"
    using odd_width_run by auto
  have h2: "pil_sizes odd_width" by (simp add: pil_sizes_def odd_width_sizes pil_size_def)
  have h3: "\<forall>impf\<in>set (impostorfiles odd_width).
      0 \<le> r0 (croppedbbox impf) \<and> r2 (croppedbbox impf) \<le> batch_maxwidth odd_width"
    by (simp add: odd_width_max) (simp add: odd_width_def batch_of_def extracted_def)
  have boxes: "map croppedbbox (impostorfiles odd_width) = [(0, 0, 3, 1)]"
    by (simp add: odd_width_def batch_of_def extracted_def)
  from uniformcrop_horizontal_extent [OF run h2 h3] cr
  have "(3::int) \<le> batch_maxwidth odd_width" by auto
  then show ?thesis using run h2 boxes cr odd_width_max(1) by auto
qed

section \<open>The size check\<close>

lemma mismatch_exact:
  assumes "0 < M" and "M < 2 ^ 31" and "x \<le> M"
  shows "mismatch M x \<le> MAXALLOWEDSIZEMISMATCH \<longleftrightarrow> 20 * (M - x) \<le> M"
proof
  assume le: "mismatch M x \<le> MAXALLOWEDSIZEMISMATCH"
  show "20 * (M - x) \<le> M"
  proof (rule ccontr)
    assume "\<not> 20 * (M - x) \<le> M"
    then have "M < 20 * (M - x)" by simp
    then have "MAXALLOWEDSIZEMISMATCH < mismatch M x"
      unfolding mismatch_def by (rule ratio_exceeds [OF assms(1,2)])
    then show False using le by simp
  qed
next
  assume "20 * (M - x) \<le> M"
  moreover have "0 \<le> M - x" using assms(3) by simp
  ultimately show "mismatch M x \<le> MAXALLOWEDSIZEMISMATCH"
    unfolding mismatch_def using assms(1) by (intro ratio_within)
qed

lemma batch_size_le_max:
  assumes "s \<in> set (batch_sizes st)"
  shows "fst s \<le> batch_maxwidth st" and "snd s \<le> batch_maxheight st"
  using assms by (simp_all add: batch_maxwidth_def batch_maxheight_def)

text \<open>
  Claim C2.  For a non-empty batch whose maximum cropped width and height are
  positive, the size check of \<open>uniformcrop\<close> returns a truth value, which is \<open>True\<close>
  if and only if for every record the quotients \<open>(maxWidth - w) / maxWidth\<close> and
  \<open>(maxHeight - h) / maxHeight\<close>, as the program computes them, are at most \<open>0.05\<close>.
  When some record exceeds either bound, \<open>uniformcrop\<close> returns \<open>False\<close> and the
  object is unchanged (no crop rectangle set, no image cropped); when none does,
  \<open>uniformcrop\<close> does not return \<open>False\<close>.  For the sizes an image can have the two
  floating-point tests are the exact tests \<open>20 * (maxWidth - w) \<le> maxWidth\<close> and
  \<open>20 * (maxHeight - h) \<le> maxHeight\<close>.
\<close>

theorem sizecheck_tolerance:
  assumes "impostorfiles st \<noteq> []"
    and "0 < batch_maxwidth st" and "0 < batch_maxheight st"
  shows "sizecheck (batch_maxwidth st) (batch_maxheight st) (batch_sizes st) =
           Inr (\<forall>s\<in>set (batch_sizes st).
                  mismatch (batch_maxwidth st) (fst s) \<le> MAXALLOWEDSIZEMISMATCH \<and>
                  mismatch (batch_maxheight st) (snd s) \<le> MAXALLOWEDSIZEMISMATCH) \<and>
         ((\<exists>s\<in>set (batch_sizes st).
              MAXALLOWEDSIZEMISMATCH < mismatch (batch_maxwidth st) (fst s) \<or>
              MAXALLOWEDSIZEMISMATCH < mismatch (batch_maxheight st) (snd s))
            \<longrightarrow> uniformcrop crop st = Inr (False, st)) \<and>
         ((\<forall>s\<in>set (batch_sizes st).
              mismatch (batch_maxwidth st) (fst s) \<le> MAXALLOWEDSIZEMISMATCH \<and>
              mismatch (batch_maxheight st) (snd s) \<le> MAXALLOWEDSIZEMISMATCH)
            \<longrightarrow> (\<forall>st'. uniformcrop crop st \<noteq> Inr (False, st'))) \<and>
         (pil_sizes st \<longrightarrow>
            (\<forall>s\<in>set (batch_sizes st).
               (mismatch (batch_maxwidth st) (fst s) \<le> MAXALLOWEDSIZEMISMATCH
                  \<longleftrightarrow> 20 * (batch_maxwidth st - fst s) \<le> batch_maxwidth st) \<and>
               (mismatch (batch_maxheight st) (snd s) \<le> MAXALLOWEDSIZEMISMATCH
                  \<longleftrightarrow> 20 * (batch_maxheight st - snd s) \<le> batch_maxheight st)))"
proof -
  define M where "M = batch_maxwidth st"
  define H where "H = batch_maxheight st"
  have nz: "M \<noteq> 0" "H \<noteq> 0" using assms(2,3) by (simp_all add: M_def H_def)
  have chk: "sizecheck M H (batch_sizes st) =
      Inr (\<not> (\<exists>s\<in>set (batch_sizes st). too_different M H s))"
    using nz by (rule sizecheck_nonzero)
  have a: "sizecheck M H (batch_sizes st) =
      Inr (\<forall>s\<in>set (batch_sizes st).
             mismatch M (fst s) \<le> MAXALLOWEDSIZEMISMATCH \<and>
             mismatch H (snd s) \<le> MAXALLOWEDSIZEMISMATCH)"
    unfolding chk by (auto simp: too_different_def not_less)
  have b: "uniformcrop crop st = Inr (False, st)"
    if "\<exists>s\<in>set (batch_sizes st).
          MAXALLOWEDSIZEMISMATCH < mismatch M (fst s) \<or>
          MAXALLOWEDSIZEMISMATCH < mismatch H (snd s)"
  proof -
    have "sizecheck M H (batch_sizes st) = Inr False"
      unfolding chk using that by (auto simp: too_different_def)
    then show ?thesis
      unfolding uniformcrop_nonempty [OF assms(1)] by (simp add: M_def H_def)
  qed
  have c: "uniformcrop crop st \<noteq> Inr (False, st')"
    if "\<forall>s\<in>set (batch_sizes st).
          mismatch M (fst s) \<le> MAXALLOWEDSIZEMISMATCH \<and>
          mismatch H (snd s) \<le> MAXALLOWEDSIZEMISMATCH" for st'
  proof -
    have "sizecheck M H (batch_sizes st) = Inr True"
      unfolding a using that by simp
    then show ?thesis
      unfolding uniformcrop_nonempty [OF assms(1)]
      by (simp add: M_def H_def split: sum.splits)
  qed
  have d: "(mismatch M (fst s) \<le> MAXALLOWEDSIZEMISMATCH \<longleftrightarrow> 20 * (M - fst s) \<le> M) \<and>
           (mismatch H (snd s) \<le> MAXALLOWEDSIZEMISMATCH \<longleftrightarrow> 20 * (H - snd s) \<le> H)"
    if pil: "pil_sizes st" and s: "s \<in> set (batch_sizes st)" for s
  proof -
    have "M < 2 ^ 31" using pil_maxwidth [OF assms(1) pil] by (simp add: M_def)
    moreover have "H < 2 ^ 31" using pil_maxheight [OF assms(1) pil] by (simp add: H_def)
    moreover have "fst s \<le> M" "snd s \<le> H"
      using batch_size_le_max [OF s] by (simp_all add: M_def H_def)
    ultimately show ?thesis
      using assms(2,3) by (simp add: mismatch_exact M_def H_def)
  qed
  show ?thesis
    unfolding M_def [symmetric] H_def [symmetric] using a b c d by blast
qed

lemma mismatched_sizes: "batch_sizes mismatched = [(200, 100), (200, 90)]"
  by (simp add: mismatched_def batch_of_def batch_sizes_def extracted_def solid_def)

lemma mismatched_max: "batch_maxwidth mismatched = 200" "batch_maxheight mismatched = 100"
  by (simp_all add: batch_maxwidth_def batch_maxheight_def mismatched_sizes)

theorem sizecheck_tolerance_witness:
  "impostorfiles mismatched \<noteq> [] \<and> 0 < batch_maxwidth mismatched \<and>
   0 < batch_maxheight mismatched \<and>
   MAXALLOWEDSIZEMISMATCH < mismatch (batch_maxheight mismatched) 90 \<and>
   uniformcrop crop_box mismatched = Inr (False, mismatched)"
proof -
  have h1: "impostorfiles mismatched \<noteq> []" by (simp add: mismatched_def batch_of_def)
  have h2: "0 < batch_maxwidth mismatched" and h3: "0 < batch_maxheight mismatched"
    by (simp_all add: mismatched_max)
  have big: "MAXALLOWEDSIZEMISMATCH < mismatch (batch_maxheight mismatched) 90"
    unfolding mismatched_max mismatch_def by (rule ratio_exceeds) simp_all
  then have "\<exists>s\<in>set (batch_sizes mismatched).
      MAXALLOWEDSIZEMISMATCH < mismatch (batch_maxwidth mismatched) (fst s) \<or>
      MAXALLOWEDSIZEMISMATCH < mismatch (batch_maxheight mismatched) (snd s)"
    by (simp add: mismatched_sizes)
  then have "uniformcrop crop_box mismatched = Inr (False, mismatched)"
    using sizecheck_tolerance [OF h1 h2 h3, of crop_box] by blast
  then show ?thesis using h1 h2 h3 big by blast
qed

text \<open>
  Claim C10, as amended.  For a non-empty batch: when every cropped width is 0,
  \<open>uniformcrop\<close> raises \<open>ZeroDivisionError\<close>; when every cropped height is 0, it raises
  \<open>ZeroDivisionError\<close> unless the maximum width is not zero and the width of the first
  record is too far below it, in which case it returns \<open>False\<close> before any quotient by
  the height is computed; when both maxima are positive, the size check returns a
  truth value.
\<close>

theorem sizecheck_division_by_zero:
  assumes "impostorfiles st \<noteq> []"
  shows "((\<forall>s\<in>set (batch_sizes st). fst s = 0)
            \<longrightarrow> uniformcrop crop st = Inl ZeroDivisionError) \<and>
         ((\<forall>s\<in>set (batch_sizes st). snd s = 0)
            \<longrightarrow> uniformcrop crop st =
                  (if batch_maxwidth st \<noteq> 0 \<and>
                      MAXALLOWEDSIZEMISMATCH <
                        mismatch (batch_maxwidth st) (fst (hd (batch_sizes st)))
                   then Inr (False, st) else Inl ZeroDivisionError)) \<and>
         (0 < batch_maxwidth st \<and> 0 < batch_maxheight st
            \<longrightarrow> (\<exists>b. sizecheck (batch_maxwidth st) (batch_maxheight st) (batch_sizes st)
                        = Inr b))"
proof -
  have ne: "batch_sizes st \<noteq> []" using assms by (rule batch_sizes_nonempty)
  have w_in: "batch_maxwidth st \<in> set (map fst (batch_sizes st))"
    unfolding batch_maxwidth_def using ne by (intro Max_in) auto
  have h_in: "batch_maxheight st \<in> set (map snd (batch_sizes st))"
    unfolding batch_maxheight_def using ne by (intro Max_in) auto
  have a: "uniformcrop crop st = Inl ZeroDivisionError"
    if "\<forall>s\<in>set (batch_sizes st). fst s = 0"
  proof -
    have "batch_maxwidth st = 0" using w_in that by auto
    then show ?thesis
      unfolding uniformcrop_nonempty [OF assms] using sizecheck_zero_width [OF ne] by simp
  qed
  have b: "uniformcrop crop st =
      (if batch_maxwidth st \<noteq> 0 \<and>
          MAXALLOWEDSIZEMISMATCH < mismatch (batch_maxwidth st) (fst (hd (batch_sizes st)))
       then Inr (False, st) else Inl ZeroDivisionError)"
    if "\<forall>s\<in>set (batch_sizes st). snd s = 0"
  proof -
    have H: "batch_maxheight st = 0" using h_in that by auto
    show ?thesis
    proof (cases "batch_maxwidth st = 0")
      case True
      then show ?thesis
        unfolding uniformcrop_nonempty [OF assms] using sizecheck_zero_width [OF ne] by simp
    next
      case False
      then show ?thesis
        unfolding uniformcrop_nonempty [OF assms] H
        using sizecheck_zero_height [OF ne False] by simp
    qed
  qed
  have c: "\<exists>b. sizecheck (batch_maxwidth st) (batch_maxheight st) (batch_sizes st) = Inr b"
    if "0 < batch_maxwidth st \<and> 0 < batch_maxheight st"
    using that sizecheck_nonzero [of "batch_maxwidth st" "batch_maxheight st" "batch_sizes st"]
    by simp
  show ?thesis using a b c by blast
qed

lemma flat_sizes: "batch_sizes flat = [(50, 0), (100, 0)]"
  by (simp add: flat_def batch_of_def batch_sizes_def extracted_def solid_def)

lemma flat_max: "batch_maxwidth flat = 100" "batch_maxheight flat = 0"
  by (simp_all add: batch_maxwidth_def batch_maxheight_def flat_sizes)

text \<open>
  Claim C10 as stated fails for two images of height zero and widths 50 and 100: the
  width test of the first record is true, and \<open>uniformcrop\<close> returns \<open>False\<close>.
\<close>

theorem uniformcrop_zero_height_returns:
  "impostorfiles flat \<noteq> [] \<and> map snd (batch_sizes flat) = [0, 0] \<and>
   uniformcrop crop_box flat = Inr (False, flat)"
proof -
  have ne: "impostorfiles flat \<noteq> []" by (simp add: flat_def batch_of_def)
  have "MAXALLOWEDSIZEMISMATCH < fl (of_int 50 / of_int 100)"
    by (rule ratio_exceeds) simp_all
  then have "sizecheck 100 0 (batch_sizes flat) = Inr False"
    by (simp add: flat_sizes int_truediv_def)
  then have "uniformcrop crop_box flat = Inr (False, flat)"
    unfolding uniformcrop_nonempty [OF ne] flat_max by simp
  then show ?thesis using ne by (simp add: flat_sizes)
qed

lemma zero_width_sizes: "batch_sizes zero_width = [(0, 10)]"
  by (simp add: zero_width_def batch_of_def batch_sizes_def extracted_def solid_def)

theorem sizecheck_division_by_zero_witness:
  "impostorfiles zero_width \<noteq> [] \<and> map fst (batch_sizes zero_width) = [0] \<and>
   uniformcrop crop_box zero_width = Inl ZeroDivisionError"
proof -
  have h1: "impostorfiles zero_width \<noteq> []" by (simp add: zero_width_def batch_of_def)
  have h2: "\<forall>s\<in>set (batch_sizes zero_width). fst s = 0" by (simp add: zero_width_sizes)
  have "uniformcrop crop_box zero_width = Inl ZeroDivisionError"
    using sizecheck_division_by_zero [OF h1, of crop_box] h2 by blast
  then show ?thesis using h1 by (simp add: zero_width_sizes)
qed

section \<open>The compositor\<close>







section \<open>The physical size\<close>













section \<open>The option rez\<close>
















end
